theory Spec2Isabelle
  imports Complex_Main "HOL-Library.Word" "HOL-Library.Sublist"
begin

section \<open>JavaScript strings and numbers\<close>

text \<open>
  A JavaScript string is a sequence of 16-bit code units; \<open>s.length\<close> counts them and
  \<open>s[i]\<close> reads one. Numbers that the program only adds, subtracts and compares
  (offsets, lengths, byte counts, timestamps) are integers and are modelled as \<open>int\<close>;
  this is exact for magnitudes below \<open>2^53\<close>, which string lengths never leave.

  The one place where the program leaves the integers is \<open>(usedBytes / totalBytes) * 100\<close>.
  Its value is a double, modelled as a \<open>jsnumber\<close>: a finite double, given by the real it
  denotes (the two zeros are not told apart), NaN, or an infinity. IEEE 754 defines the
  quotient and the product of finite doubles as the exact real result rounded to a double.
  The rounding (to nearest, ties to even, an infinity on overflow) is the parameter \<open>rnd\<close>
  of the model, so what is proved for every \<open>rnd\<close> holds for the rounding of binary64.
\<close>

type_synonym jschar = "16 word"
type_synonym jsstring = "jschar list"

definition js :: "string \<Rightarrow> jsstring" where
  \<comment> \<open>an ASCII literal as code units\<close>
  "js s = map of_char s"

definition LBRACE :: jschar where
  "LBRACE = 123"

definition RBRACE :: jschar where
  "RBRACE = 125"

definition isWhiteSpace :: "jschar \<Rightarrow> bool" where
  \<comment> \<open>ECMAScript WhiteSpace and LineTerminator, the code units \<open>String.prototype.trim\<close> strips\<close>
  "isWhiteSpace c =
     (c = 9 \<or> c = 10 \<or> c = 11 \<or> c = 12 \<or> c = 13 \<or> c = 32 \<or> c = 160 \<or> c = 0x1680
      \<or> (0x2000 \<le> c \<and> c \<le> 0x200A) \<or> c = 0x2028 \<or> c = 0x2029 \<or> c = 0x202F
      \<or> c = 0x205F \<or> c = 0x3000 \<or> c = 0xFEFF)"

definition trim :: "jsstring \<Rightarrow> jsstring" where
  \<comment> \<open>\<open>String.prototype.trim\<close>\<close>
  "trim s = rev (dropWhile isWhiteSpace (rev (dropWhile isWhiteSpace s)))"

fun indexOfFrom :: "nat \<Rightarrow> jsstring \<Rightarrow> jsstring \<Rightarrow> int" where
  "indexOfFrom k pat [] = (if pat = [] then int k else - 1)"
| "indexOfFrom k pat (c # cs) =
     (if prefix pat (c # cs) then int k else indexOfFrom (Suc k) pat cs)"

definition indexOf :: "jsstring \<Rightarrow> jsstring \<Rightarrow> int" where
  \<comment> \<open>\<open>s.indexOf(pat)\<close>: the least offset at which \<open>pat\<close> occurs in \<open>s\<close>, or \<open>-1\<close>\<close>
  "indexOf s pat = indexOfFrom 0 pat s"

fun jsSplit :: "jschar \<Rightarrow> jsstring \<Rightarrow> jsstring list" where
  \<comment> \<open>\<open>s.split(sep)\<close> for a separator of one code unit\<close>
  "jsSplit sep [] = [[]]"
| "jsSplit sep (c # cs) =
     (if c = sep then [] # jsSplit sep cs
      else (case jsSplit sep cs of [] \<Rightarrow> [[c]] | p # ps \<Rightarrow> (c # p) # ps))"

datatype jsnumber = Finite real | NaN | Infinity | NegInfinity

type_synonym rounding = "real \<Rightarrow> jsnumber"

definition js_div :: "rounding \<Rightarrow> int \<Rightarrow> int \<Rightarrow> jsnumber" where
  \<comment> \<open>\<open>a / b\<close> on integer-valued numbers: the rounded quotient, and NaN or an infinity
      when the divisor is 0\<close>
  "js_div rnd a b =
     (if b = 0 then (if a = 0 then NaN else if 0 < a then Infinity else NegInfinity)
      else rnd (real_of_int a / real_of_int b))"

fun js_times :: "rounding \<Rightarrow> jsnumber \<Rightarrow> int \<Rightarrow> jsnumber" where
  \<comment> \<open>\<open>x * n\<close> for an integer \<open>n\<close>: the rounded product of a finite \<open>x\<close>; NaN stays NaN;
      an infinity keeps or changes its sign with the sign of \<open>n\<close>, and times 0 is NaN\<close>
  "js_times rnd (Finite x) n = rnd (x * real_of_int n)"
| "js_times rnd NaN n = NaN"
| "js_times rnd Infinity n = (if n = 0 then NaN else if 0 < n then Infinity else NegInfinity)"
| "js_times rnd NegInfinity n = (if n = 0 then NaN else if 0 < n then NegInfinity else Infinity)"

datatype error = TypeError

section \<open>The data of check-css.ts\<close>

record CSSRule =
  selector :: jsstring
  used :: bool
  bytes :: int

record CSSFileDetail =
  url :: jsstring
  total :: int
  used :: int
  unusedRules :: "CSSRule list"

record CSSUsageResult =
  totalBytes :: int
  usedBytes :: int
  usagePercent :: jsnumber
  files :: "CSSFileDetail list"

text \<open>A coverage range \<open>{start, end}\<close> and a coverage entry \<open>{url, text, ranges}\<close>,
  as \<open>page.coverage.stopCSSCoverage()\<close> returns them.\<close>

record CoverageRange =
  range_start :: int
  range_end :: int

record CoverageEntry =
  entry_url :: jsstring
  entry_text :: jsstring
  entry_ranges :: "CoverageRange list"

section \<open>parseCSSRules\<close>

record ParseState =
  rules :: "jsstring list"
  currentRule :: jsstring
  braceCount :: int

definition parseStep :: "ParseState \<Rightarrow> jschar \<Rightarrow> ParseState" where
  \<comment> \<open>one iteration of the \<open>for\<close> loop, lines 39-49\<close>
  "parseStep st char =
     (let st1 = st\<lparr>currentRule := currentRule st @ [char]\<rparr>;
          st2 = (if char = LBRACE then st1\<lparr>braceCount := braceCount st1 + 1\<rparr> else st1)
      in if char = RBRACE then
           (let st3 = st2\<lparr>braceCount := braceCount st2 - 1\<rparr>
            in if braceCount st3 = 0
               then st3\<lparr>rules := rules st3 @ [trim (currentRule st3)], currentRule := []\<rparr>
               else st3)
         else st2)"

definition parseInit :: ParseState where
  "parseInit = \<lparr>rules = [], currentRule = [], braceCount = 0\<rparr>"

definition parseCSSRules :: "jsstring \<Rightarrow> jsstring list" where
  "parseCSSRules cssText = rules (foldl parseStep parseInit cssText)"

section \<open>isRuleUsed\<close>

definition isRuleUsed :: "jsstring \<Rightarrow> jsstring \<Rightarrow> CoverageRange list \<Rightarrow> bool" where
  "isRuleUsed rule cssText ranges =
     (let ruleStart = indexOf cssText rule
      in if ruleStart = - 1 then False
         else list_ex (\<lambda>range. ruleStart \<ge> range_start range
                \<and> ruleStart + int (length rule) \<le> range_end range) ranges)"

section \<open>The analysis loop of handler\<close>

definition ruleSelector :: "jsstring \<Rightarrow> error + jsstring" where
  \<comment> \<open>\<open>rule.split("{")[0].trim()\<close>; reading index 0 of an empty array gives
      \<open>undefined\<close>, whose \<open>trim\<close> would throw\<close>
  "ruleSelector rule =
     (case jsSplit LBRACE rule of [] \<Rightarrow> Inl TypeError | p # _ \<Rightarrow> Inr (trim p))"

fun unusedLoop ::
  "CoverageEntry \<Rightarrow> jsstring list \<Rightarrow> CSSRule list \<Rightarrow> error + CSSRule list" where
  \<comment> \<open>the inner loop, lines 158-169\<close>
  "unusedLoop entry [] unused = Inr unused"
| "unusedLoop entry (rule # rest) unused =
     (case ruleSelector rule of
        Inl e \<Rightarrow> Inl e
      | Inr sel \<Rightarrow>
          (let ruleBytes = int (length rule)
           in if \<not> isRuleUsed rule (entry_text entry) (entry_ranges entry)
              then unusedLoop entry rest
                     (unused @ [\<lparr>selector = sel, CSSRule.used = False, bytes = ruleBytes\<rparr>])
              else unusedLoop entry rest unused))"

definition usedOf :: "CoverageRange list \<Rightarrow> int" where
  \<comment> \<open>\<open>entry.ranges.reduce((sum, range) => sum + (range.end - range.start), 0)\<close>\<close>
  "usedOf ranges = foldl (\<lambda>sum range. sum + (range_end range - range_start range)) 0 ranges"

definition entryDetail :: "CoverageEntry \<Rightarrow> error + CSSFileDetail" where
  \<comment> \<open>the file record built by one iteration of the outer loop, lines 146-176\<close>
  "entryDetail entry =
     (let total = int (length (entry_text entry));
          used = usedOf (entry_ranges entry);
          rules = parseCSSRules (entry_text entry)
      in case unusedLoop entry rules [] of
           Inl e \<Rightarrow> Inl e
         | Inr unused \<Rightarrow>
             Inr \<lparr>url = (if entry_url entry = [] then js ''inline <style>'' else entry_url entry),
                  total = total, used = used, unusedRules = unused\<rparr>)"

record Totals =
  accTotalBytes :: int
  accUsedBytes :: int
  accFiles :: "CSSFileDetail list"

fun coverageLoop :: "CoverageEntry list \<Rightarrow> Totals \<Rightarrow> error + Totals" where
  \<comment> \<open>the outer loop, lines 145-177, over the accumulators of lines 141-143\<close>
  "coverageLoop [] acc = Inr acc"
| "coverageLoop (entry # rest) acc =
     (case entryDetail entry of
        Inl e \<Rightarrow> Inl e
      | Inr d \<Rightarrow>
          coverageLoop rest
            \<lparr>accTotalBytes = accTotalBytes acc + total d,
             accUsedBytes = accUsedBytes acc + used d,
             accFiles = accFiles acc @ [d]\<rparr>)"

definition usagePercentOf :: "rounding \<Rightarrow> int \<Rightarrow> int \<Rightarrow> jsnumber" where
  \<comment> \<open>line 179\<close>
  "usagePercentOf rnd tBytes uBytes =
     (if tBytes > 0 then js_times rnd (js_div rnd uBytes tBytes) 100 else Finite 0)"

definition analyze :: "rounding \<Rightarrow> CoverageEntry list \<Rightarrow> error + CSSUsageResult" where
  \<comment> \<open>lines 141-185: from the coverage entries to the result object\<close>
  "analyze rnd cssCoverage =
     (case coverageLoop cssCoverage \<lparr>accTotalBytes = 0, accUsedBytes = 0, accFiles = []\<rparr> of
        Inl e \<Rightarrow> Inl e
      | Inr acc \<Rightarrow>
          Inr \<lparr>totalBytes = accTotalBytes acc,
               usedBytes = accUsedBytes acc,
               usagePercent = usagePercentOf rnd (accTotalBytes acc) (accUsedBytes acc),
               files = accFiles acc\<rparr>)"

section \<open>The result cache\<close>

record CacheEntry =
  result :: CSSUsageResult
  timestamp :: int

type_synonym resultCache = "jsstring \<rightharpoonup> CacheEntry"

definition CACHE_TTL :: int where
  "CACHE_TTL = 1000 * 60 * 60"

definition cacheGet :: "resultCache \<Rightarrow> jsstring \<Rightarrow> int \<Rightarrow> CSSUsageResult option" where
  \<comment> \<open>lines 83-86, with \<open>now\<close> the value of \<open>Date.now()\<close>: the cached result when the
      handler answers from the cache, \<open>None\<close> when it goes on to analyse\<close>
  "cacheGet cache k now =
     (case cache k of
        None \<Rightarrow> None
      | Some cached \<Rightarrow> if now - timestamp cached < CACHE_TTL then Some (result cached) else None)"

definition cachePut :: "resultCache \<Rightarrow> jsstring \<Rightarrow> CSSUsageResult \<Rightarrow> int \<Rightarrow> resultCache" where
  \<comment> \<open>line 188: \<open>resultCache.set(url, { result, timestamp: Date.now() })\<close>\<close>
  "cachePut cache k v now = cache(k \<mapsto> \<lparr>result = v, timestamp = now\<rparr>)"

section \<open>Brace depth, for stating what the segmenter does\<close>

text \<open>The depth of a text is the number of its opening braces minus the number of its
  closing braces. A prefix \<open>p\<close> of a text returns to zero when it ends in a closing brace
  that brings the depth to exactly 0.\<close>

definition depth :: "jsstring \<Rightarrow> int" where
  "depth s = int (length (filter (\<lambda>c. c = LBRACE) s)) - int (length (filter (\<lambda>c. c = RBRACE) s))"

definition returnsToZero :: "jsstring \<Rightarrow> bool" where
  "returnsToZero p = (p \<noteq> [] \<and> last p = RBRACE \<and> depth p = 0)"

definition neverReturns :: "jsstring \<Rightarrow> jsstring \<Rightarrow> bool" where
  \<comment> \<open>read after \<open>pre\<close>, no closing brace of \<open>s\<close> brings the depth to 0\<close>
  "neverReturns pre s = (\<forall>q\<in>set (prefixes s). q \<noteq> [] \<longrightarrow> \<not> returnsToZero (pre @ q))"

definition firstReturn :: "jsstring \<Rightarrow> bool" where
  \<comment> \<open>\<open>p\<close> returns to zero at its last brace and nowhere before\<close>
  "firstReturn p =
     (returnsToZero p \<and> (\<forall>q\<in>set (prefixes p). q \<noteq> p \<longrightarrow> \<not> returnsToZero q))"


text \<open>A text made of blocks \<open>selector { body }\<close> none of which holds a brace inside its
  body (no nesting), each block closed.\<close>

fun flatFrom :: "bool \<Rightarrow> jsstring \<Rightarrow> bool" where
  "flatFrom inside [] = (\<not> inside)"
| "flatFrom inside (c # cs) =
     (if c = LBRACE then \<not> inside \<and> flatFrom True cs
      else if c = RBRACE then inside \<and> flatFrom False cs
      else flatFrom inside cs)"

definition flatBlocks :: "jsstring \<Rightarrow> bool" where
  "flatBlocks s = flatFrom False s"

definition noBraces :: "jsstring \<Rightarrow> bool" where
  "noBraces s = (LBRACE \<notin> set s \<and> RBRACE \<notin> set s)"


section \<open>Occurrences of a rule's text, for stating what the classifier does\<close>

text \<open>\<open>pat\<close> occurs in \<open>s\<close> at offset \<open>i\<close>; the first occurrence is the least such offset;
  the span \<open>[i, i + n)\<close> lies inside the range \<open>r\<close>. That \<open>pat\<close> occurs somewhere in \<open>s\<close>
  is \<open>sublist pat s\<close> of the library.\<close>

definition occursAt :: "jsstring \<Rightarrow> jsstring \<Rightarrow> nat \<Rightarrow> bool" where
  "occursAt s pat i = (i + length pat \<le> length s \<and> take (length pat) (drop i s) = pat)"

definition firstOccurrence :: "jsstring \<Rightarrow> jsstring \<Rightarrow> nat \<Rightarrow> bool" where
  "firstOccurrence s pat i = (occursAt s pat i \<and> list_all (\<lambda>j. \<not> occursAt s pat j) [0..<i])"

definition spanInside :: "nat \<Rightarrow> nat \<Rightarrow> CoverageRange \<Rightarrow> bool" where
  "spanInside i n r = (range_start r \<le> int i \<and> int i + int n \<le> range_end r)"


section \<open>Ranges and file records, for stating what the aggregation does\<close>

text \<open>No two ranges of a list overlap; every range lies inside \<open>[0, n]\<close> with end > start;
  every range has end > start; the sum of \<open>end - start\<close> over the ranges; and the record
  that the inner loop pushes for an unused rule.\<close>

fun disjointRanges :: "CoverageRange list \<Rightarrow> bool" where
  "disjointRanges [] = True"
| "disjointRanges (r # rs) =
     (list_all (\<lambda>q. range_end r \<le> range_start q \<or> range_end q \<le> range_start r) rs
      \<and> disjointRanges rs)"

definition rangesWithin :: "int \<Rightarrow> CoverageRange list \<Rightarrow> bool" where
  "rangesWithin n rs =
     list_all (\<lambda>r. 0 \<le> range_start r \<and> range_start r < range_end r \<and> range_end r \<le> n) rs"

definition endAfterStart :: "CoverageRange list \<Rightarrow> bool" where
  "endAfterStart rs = list_all (\<lambda>r. range_start r < range_end r) rs"

definition coveredBytes :: "CoverageRange list \<Rightarrow> int" where
  "coveredBytes rs = sum_list (map (\<lambda>r. range_end r - range_start r) rs)"

definition unusedRuleOf :: "jsstring \<Rightarrow> CSSRule" where
  "unusedRuleOf rule =
     \<lparr>selector = trim (takeWhile (\<lambda>c. c \<noteq> LBRACE) rule), CSSRule.used = False,
      bytes = int (length rule)\<rparr>"


section \<open>Properties of parseCSSRules\<close>

lemma braces_distinct: "LBRACE \<noteq> RBRACE"
  by (simp add: LBRACE_def RBRACE_def)

lemma depth_Nil: "depth [] = 0"
  by (simp add: depth_def)

lemma depth_append: "depth (xs @ ys) = depth xs + depth ys"
  by (simp add: depth_def)

lemma depth_single:
  "depth [c] = (if c = LBRACE then 1 else if c = RBRACE then - 1 else 0)"
  using braces_distinct by (simp add: depth_def)

lemma parseStep_quiet:
  assumes "c = RBRACE \<longrightarrow> braceCount st + depth [c] \<noteq> 0"
  shows "parseStep st c = st\<lparr>currentRule := currentRule st @ [c], braceCount := braceCount st + depth [c]\<rparr>"
  using assms braces_distinct by (simp add: parseStep_def Let_def depth_single)

lemma parseStep_emit:
  assumes "braceCount st = 1"
  shows "parseStep st RBRACE = st\<lparr>rules := rules st @ [trim (currentRule st @ [RBRACE])], currentRule := [], braceCount := 0\<rparr>"
  using assms braces_distinct by (simp add: parseStep_def Let_def)

lemma fold_quiet:
  assumes "\<forall>q\<in>set (prefixes s). q \<noteq> [] \<and> last q = RBRACE \<longrightarrow> braceCount st + depth q \<noteq> 0"
  shows "foldl parseStep st s = st\<lparr>currentRule := currentRule st @ s, braceCount := braceCount st + depth s\<rparr>"
  using assms
proof (induction s rule: rev_induct)
  case Nil
  show ?case by (simp add: depth_Nil)
next
  case (snoc c s)
  have pre: "foldl parseStep st s = st\<lparr>currentRule := currentRule st @ s, braceCount := braceCount st + depth s\<rparr>"
    using snoc by simp
  have "c = RBRACE \<longrightarrow> braceCount st + depth (s @ [c]) \<noteq> 0"
    using snoc.prems by simp
  then have q: "c = RBRACE \<longrightarrow> braceCount (foldl parseStep st s) + depth [c] \<noteq> 0"
    by (simp add: pre depth_append add.assoc)
  show ?case
    by (simp add: parseStep_quiet [OF q]) (simp add: pre depth_append add.assoc)
qed

lemma parseStep_rules:
  "parseStep st c = (parseStep (st\<lparr>rules := []\<rparr>) c)\<lparr>rules := rules st @ rules (parseStep (st\<lparr>rules := []\<rparr>) c)\<rparr>"
  by (simp add: parseStep_def Let_def)

lemma fold_rules:
  "foldl parseStep st s = (foldl parseStep (st\<lparr>rules := []\<rparr>) s)\<lparr>rules := rules st @ rules (foldl parseStep (st\<lparr>rules := []\<rparr>) s)\<rparr>"
proof (induction s rule: rev_induct)
  case Nil
  show ?case by simp
next
  case (snoc c s)
  let ?t = "foldl parseStep (st\<lparr>rules := []\<rparr>) s"
  have "parseStep (foldl parseStep st s) c = parseStep (?t\<lparr>rules := rules st @ rules ?t\<rparr>) c"
    using snoc by simp
  also have "\<dots> = (parseStep ?t c)\<lparr>rules := rules st @ rules (parseStep ?t c)\<rparr>"
    by (simp add: parseStep_def Let_def)
  finally show ?case by simp
qed

lemma parse_no_return:
  assumes "\<forall>p\<in>set (prefixes s). \<not> returnsToZero p"
  shows "parseCSSRules s = []"
proof -
  have "\<forall>q\<in>set (prefixes s). q \<noteq> [] \<and> last q = RBRACE \<longrightarrow> braceCount parseInit + depth q \<noteq> 0"
    using assms by (auto simp: returnsToZero_def parseInit_def)
  from fold_quiet [OF this] show ?thesis
    by (simp add: parseCSSRules_def parseInit_def)
qed

lemma parse_first_return:
  assumes r: "returnsToZero p"
    and first: "\<forall>q\<in>set (prefixes p). q \<noteq> p \<longrightarrow> \<not> returnsToZero q"
  shows "parseCSSRules (p @ rest) = trim p # parseCSSRules rest"
proof -
  from r obtain b where p: "p = b @ [RBRACE]" and d: "depth p = 0"
    by (metis returnsToZero_def snoc_eq_iff_butlast)
  have "\<forall>q\<in>set (prefixes b). q \<noteq> [] \<and> last q = RBRACE \<longrightarrow> braceCount parseInit + depth q \<noteq> 0"
  proof (intro ballI impI)
    fix q assume q: "q \<in> set (prefixes b)" and l: "q \<noteq> [] \<and> last q = RBRACE"
    from q have "prefix q b" by simp
    then have "q \<in> set (prefixes p)" "q \<noteq> p"
      using p by (auto simp: prefix_def)
    with first have "\<not> returnsToZero q" by blast
    with l show "braceCount parseInit + depth q \<noteq> 0"
      by (simp add: returnsToZero_def parseInit_def)
  qed
  from fold_quiet [OF this]
  have b: "foldl parseStep parseInit b = parseInit\<lparr>currentRule := b, braceCount := depth b\<rparr>"
    by (simp add: parseInit_def)
  have one: "depth b = 1"
    using d p braces_distinct by (simp add: depth_append depth_single split: if_splits)
  have "foldl parseStep parseInit p = parseInit\<lparr>rules := [trim p]\<rparr>"
    by (simp add: p b parseStep_emit one) (simp add: parseInit_def)
  then have "foldl parseStep parseInit (p @ rest) = foldl parseStep (parseInit\<lparr>rules := [trim p]\<rparr>) rest"
    by simp
  also have "\<dots> = (foldl parseStep parseInit rest)\<lparr>rules := [trim p] @ rules (foldl parseStep parseInit rest)\<rparr>"
    using fold_rules [of "parseInit\<lparr>rules := [trim p]\<rparr>" rest] by (simp add: parseInit_def)
  finally show ?thesis
    by (simp add: parseCSSRules_def)
qed

lemma braceCount_fold: "braceCount (foldl parseStep st s) = braceCount st + depth s"
proof (induction s rule: rev_induct)
  case Nil
  show ?case by (simp add: depth_Nil)
next
  case (snoc c s)
  then show ?case
    using braces_distinct by (simp add: parseStep_def Let_def depth_append depth_single)
qed

lemma parse_trailing:
  assumes "\<forall>q\<in>set (prefixes tail). q \<noteq> [] \<longrightarrow> \<not> returnsToZero (s @ q)"
  shows "parseCSSRules (s @ tail) = parseCSSRules s"
proof -
  let ?st = "foldl parseStep parseInit s"
  have "\<forall>q\<in>set (prefixes tail). q \<noteq> [] \<and> last q = RBRACE \<longrightarrow> braceCount ?st + depth q \<noteq> 0"
    using assms by (auto simp: returnsToZero_def braceCount_fold parseInit_def depth_append)
  from fold_quiet [OF this] show ?thesis
    by (simp add: parseCSSRules_def)
qed

lemma whitespace_not_brace: "isWhiteSpace c \<Longrightarrow> c \<noteq> RBRACE"
  by (auto simp: isWhiteSpace_def RBRACE_def)

lemma parse_no_rbrace:
  assumes "RBRACE \<notin> set s"
  shows "parseCSSRules s = []"
proof (rule parse_no_return, intro ballI)
  fix p assume "p \<in> set (prefixes s)"
  then have "set p \<subseteq> set s" by (auto simp: prefix_def)
  with assms have "p \<noteq> [] \<longrightarrow> last p \<noteq> RBRACE"
    using last_in_set by fastforce
  then show "\<not> returnsToZero p" by (auto simp: returnsToZero_def)
qed

lemma depth_Cons:
  "depth (c # cs) = (if c = LBRACE then 1 else if c = RBRACE then - 1 else 0) + depth cs"
  using depth_append [of "[c]" cs] by (simp add: depth_single)

lemma flat_close:
  assumes "flatFrom inside s" "q \<in> set (prefixes s)" "q \<noteq> []" "last q = RBRACE"
  shows "(if inside then 1 else 0) + depth q = 0"
  using assms
proof (induction s arbitrary: inside q)
  case Nil
  then show ?case by simp
next
  case (Cons c cs)
  from Cons.prems(2,3) obtain q' where q: "q = c # q'" and q': "q' \<in> set (prefixes cs)"
    by auto
  show ?case
  proof (cases "q' = []")
    case True
    with q Cons.prems(4) have "c = RBRACE" by simp
    with Cons.prems(1) braces_distinct have "inside" by (simp split: if_splits)
    with True q \<open>c = RBRACE\<close> braces_distinct show ?thesis by (simp add: depth_single)
  next
    case False
    with q Cons.prems(4) have l: "last q' = RBRACE" by simp
    consider (L) "c = LBRACE" | (R) "c = RBRACE" | (O) "c \<noteq> LBRACE" "c \<noteq> RBRACE" by blast
    then show ?thesis
    proof cases
      case L
      with Cons.prems(1) have "\<not> inside" "flatFrom True cs" by simp_all
      from Cons.IH [OF this(2) q' False l] L \<open>\<not> inside\<close> q show ?thesis
        by (simp add: depth_Cons)
    next
      case R
      with Cons.prems(1) braces_distinct have "inside" "flatFrom False cs" by (simp_all split: if_splits)
      from Cons.IH [OF this(2) q' False l] R \<open>inside\<close> q braces_distinct show ?thesis
        by (simp add: depth_Cons)
    next
      case O
      with Cons.prems(1) have "flatFrom inside cs" by simp
      from Cons.IH [OF this q' False l] O q show ?thesis
        by (simp add: depth_Cons)
    qed
  qed
qed

lemma parse_after_stray:
  assumes "depth pre < 0" "flatBlocks rest"
  shows "parseCSSRules (pre @ rest) = parseCSSRules pre"
proof (rule parse_trailing, intro ballI impI)
  fix q assume q: "q \<in> set (prefixes rest)" "q \<noteq> []"
  show "\<not> returnsToZero (pre @ q)"
  proof
    assume r: "returnsToZero (pre @ q)"
    with q have "last q = RBRACE" by (simp add: returnsToZero_def)
    with flat_close [of False rest q] assms(2) q have "depth q = 0"
      by (simp add: flatBlocks_def)
    with r assms(1) show False by (simp add: returnsToZero_def depth_append)
  qed
qed

lemma depth_noBraces: "noBraces s \<Longrightarrow> depth s = 0"
  by (induction s) (auto simp: depth_Nil depth_Cons noBraces_def)

lemma parse_flat_block:
  assumes "noBraces sel" "noBraces body"
  shows "parseCSSRules (sel @ [LBRACE] @ body @ [RBRACE] @ rest)
           = trim (sel @ [LBRACE] @ body @ [RBRACE]) # parseCSSRules rest"
proof -
  let ?p = "sel @ [LBRACE] @ body @ [RBRACE]"
  have r: "returnsToZero ?p"
    using assms braces_distinct by (simp add: returnsToZero_def depth_append depth_noBraces depth_Cons depth_Nil)
  have first: "\<forall>q\<in>set (prefixes ?p). q \<noteq> ?p \<longrightarrow> \<not> returnsToZero q"
  proof (intro ballI impI)
    fix q assume "q \<in> set (prefixes ?p)" "q \<noteq> ?p"
    then have "prefix q ((sel @ [LBRACE] @ body) @ [RBRACE])" "q \<noteq> (sel @ [LBRACE] @ body) @ [RBRACE]" by simp_all
    then have "prefix q (sel @ [LBRACE] @ body)" by (simp only: prefix_snoc) blast
    then have "set q \<subseteq> set (sel @ [LBRACE] @ body)" by (rule set_mono_prefix)
    with assms braces_distinct have "RBRACE \<notin> set q" by (auto simp: noBraces_def)
    then have "q \<noteq> [] \<longrightarrow> last q \<noteq> RBRACE" using last_in_set by metis
    then show "\<not> returnsToZero q" by (auto simp: returnsToZero_def)
  qed
  from parse_first_return [OF r first, of rest] show ?thesis by simp
qed


section \<open>The segmenter: claims\<close>

text \<open>
  C4. The segmenter emits the trimmed buffer exactly when a closing brace returns the
  depth to 0: a text in which no closing brace returns the depth to 0 yields no rule,
  and a text that starts with a prefix \<open>p\<close> returning to zero for the first time yields
  \<open>trim p\<close> followed by the rules of the rest, segmented from an empty buffer and depth 0.
  Consequently trailing content in which no closing brace returns the depth to 0 is
  dropped, and an empty or whitespace-only text yields no rule.
\<close>

theorem parseCSSRules_emits_at_depth_zero:
  "(neverReturns [] t \<longrightarrow> parseCSSRules t = [])
   \<and> (firstReturn p \<longrightarrow> parseCSSRules (p @ rest) = trim p # parseCSSRules rest)
   \<and> (neverReturns cssText tail \<longrightarrow> parseCSSRules (cssText @ tail) = parseCSSRules cssText)
   \<and> (list_all isWhiteSpace ws \<longrightarrow> parseCSSRules ws = [])
   \<and> parseCSSRules [] = []"
proof (intro conjI impI)
  show "parseCSSRules [] = []" by (simp add: parseCSSRules_def parseInit_def)
next
  assume "list_all isWhiteSpace ws"
  then have "RBRACE \<notin> set ws" using whitespace_not_brace by (auto simp: list_all_iff)
  then show "parseCSSRules ws = []" by (rule parse_no_rbrace)
next
  assume "neverReturns [] t"
  then show "parseCSSRules t = []"
    using parse_trailing [of t "[]"] by (simp add: neverReturns_def parseCSSRules_def parseInit_def)
next
  assume "firstReturn p"
  then show "parseCSSRules (p @ rest) = trim p # parseCSSRules rest"
    by (simp add: firstReturn_def parse_first_return)
next
  assume "neverReturns cssText tail"
  then show "parseCSSRules (cssText @ tail) = parseCSSRules cssText"
    by (simp add: neverReturns_def parse_trailing)
qed

theorem parseCSSRules_emits_at_depth_zero_witness:
  "neverReturns [] (js ''a{b{c}'')
   \<and> parseCSSRules (js ''a{b{c}'') = []
   \<and> firstReturn (js '' a{b{c}}'')
   \<and> parseCSSRules (js '' a{b{c}}'' @ js ''d{e}f'') = [js ''a{b{c}}'', js ''d{e}'']
   \<and> neverReturns (js ''a{b}'') (js '' c{d'')
   \<and> parseCSSRules (js ''a{b}'' @ js '' c{d'') = [js ''a{b}'']
   \<and> list_all isWhiteSpace (js ''  '')
   \<and> parseCSSRules (js ''  '') = []"
proof -
  have h1: "neverReturns [] (js ''a{b{c}'')"
    by code_simp
  have h2: "firstReturn (js '' a{b{c}}'')"
    by code_simp
  have h3: "neverReturns (js ''a{b}'') (js '' c{d'')"
    by code_simp
  have h4: "list_all isWhiteSpace (js ''  '')"
    by code_simp
  have v: "trim (js '' a{b{c}}'') = js ''a{b{c}}''" "parseCSSRules (js ''d{e}f'') = [js ''d{e}'']"
    "parseCSSRules (js ''a{b}'') = [js ''a{b}'']"
    by code_simp+
  show ?thesis
    using parseCSSRules_emits_at_depth_zero
      [where t = "js ''a{b{c}''" and p = "js '' a{b{c}}''" and rest = "js ''d{e}f''"
         and cssText = "js ''a{b}''" and tail = "js '' c{d''" and ws = "js ''  ''"]
      h1 h2 h3 h4 v
    by simp
qed

text \<open>
  C10 as stated fails when the block after the stray brace holds a nested block: the
  inner closing brace brings the counter from 1 to 0 and a rule is emitted, made of the
  stray brace and the block without its last brace.
\<close>

theorem stray_brace_nested_block_counterexample:
  "parseCSSRules (js ''a{b{c}}'') = [js ''a{b{c}}'']
   \<and> parseCSSRules (js ''}a{b{c}}'') = [js ''}a{b{c}'']"
  by code_simp

text \<open>
  C10, amended. The brace counter is the depth of the text read so far, so it is
  negative after an unmatched closing brace. After a prefix of negative depth, blocks
  without nested braces are discarded: no rule is emitted for them (after a lone stray
  brace the result is empty). Without the stray brace a block without nested braces is
  emitted as a rule.
\<close>

theorem stray_brace_discards_flat_blocks:
  "braceCount (foldl parseStep parseInit cssText) = depth cssText
   \<and> (depth pre < 0 \<and> flatBlocks blocks \<longrightarrow> parseCSSRules (pre @ blocks) = parseCSSRules pre)
   \<and> (flatBlocks blocks \<longrightarrow> parseCSSRules (RBRACE # blocks) = [])
   \<and> (noBraces sel \<and> noBraces body \<longrightarrow>
        parseCSSRules (sel @ [LBRACE] @ body @ [RBRACE] @ rest)
          = trim (sel @ [LBRACE] @ body @ [RBRACE]) # parseCSSRules rest)"
proof (intro conjI impI)
  show "braceCount (foldl parseStep parseInit cssText) = depth cssText"
    by (simp add: braceCount_fold parseInit_def)
next
  assume "depth pre < 0 \<and> flatBlocks blocks"
  then show "parseCSSRules (pre @ blocks) = parseCSSRules pre"
    by (simp add: parse_after_stray)
next
  assume f: "flatBlocks blocks"
  have "depth [RBRACE] < 0" using braces_distinct by (simp add: depth_single)
  from parse_after_stray [OF this f] have "parseCSSRules (RBRACE # blocks) = parseCSSRules [RBRACE]"
    by simp
  also have "\<dots> = []"
    using braces_distinct by (simp add: parseCSSRules_def parseInit_def parseStep_def)
  finally show "parseCSSRules (RBRACE # blocks) = []" .
next
  assume "noBraces sel \<and> noBraces body"
  then have "noBraces sel" "noBraces body" by blast+
  then show "parseCSSRules (sel @ [LBRACE] @ body @ [RBRACE] @ rest)
          = trim (sel @ [LBRACE] @ body @ [RBRACE]) # parseCSSRules rest"
    by (rule parse_flat_block)
qed

theorem stray_brace_discards_flat_blocks_witness:
  "braceCount (foldl parseStep parseInit (js ''}'')) = - 1
   \<and> depth (js ''x{y}}'') < 0 \<and> flatBlocks (js ''a{b} c{d}'')
   \<and> parseCSSRules (js ''x{y}}'' @ js ''a{b} c{d}'') = [js ''x{y}'']
   \<and> parseCSSRules (RBRACE # js ''a{b}'') = []
   \<and> noBraces (js ''a'') \<and> noBraces (js ''b'')
   \<and> parseCSSRules (js ''a'' @ [LBRACE] @ js ''b'' @ [RBRACE] @ []) = [js ''a{b}'']"
proof -
  have h1: "depth (js ''x{y}}'') < 0" "depth (js ''}'') = - 1"
    by code_simp+
  have h2: "flatBlocks (js ''a{b} c{d}'')" "flatBlocks (js ''a{b}'')"
    by code_simp+
  have h3: "noBraces (js ''a'')" "noBraces (js ''b'')"
    by code_simp+
  have v1: "parseCSSRules (js ''x{y}}'') = [js ''x{y}'']"
    by code_simp
  have v2: "trim (js ''a'' @ [LBRACE] @ js ''b'' @ [RBRACE]) = js ''a{b}''" "parseCSSRules [] = []"
    by code_simp+
  have a: "braceCount (foldl parseStep parseInit (js ''}'')) = - 1"
    using stray_brace_discards_flat_blocks [where cssText = "js ''}''"] h1 by simp
  have b: "parseCSSRules (js ''x{y}}'' @ js ''a{b} c{d}'') = [js ''x{y}'']"
    using stray_brace_discards_flat_blocks [where pre = "js ''x{y}}''" and blocks = "js ''a{b} c{d}''"]
      h1 h2 v1 by simp
  have c: "parseCSSRules (RBRACE # js ''a{b}'') = []"
    using stray_brace_discards_flat_blocks [where blocks = "js ''a{b}''"] h2 by simp
  have d: "parseCSSRules (js ''a'' @ [LBRACE] @ js ''b'' @ [RBRACE] @ []) = [js ''a{b}'']"
    using stray_brace_discards_flat_blocks [where sel = "js ''a''" and body = "js ''b''" and rest = "[]"]
      h3 v2 by simp
  from a b c d h1 h2 h3 show ?thesis by simp
qed

section \<open>Properties of indexOf and isRuleUsed\<close>

lemma firstOccurrence_iff:
  "firstOccurrence s pat i \<longleftrightarrow> occursAt s pat i \<and> (\<forall>j<i. \<not> occursAt s pat j)"
  by (auto simp: firstOccurrence_def list_all_iff)

lemma occursAt_0: "occursAt s pat 0 \<longleftrightarrow> prefix pat s"
proof
  assume "occursAt s pat 0"
  then have "take (length pat) s = pat" by (simp add: occursAt_def)
  then show "prefix pat s" using take_is_prefix [of "length pat" s] by simp
next
  assume "prefix pat s"
  then obtain zs where "s = pat @ zs" by (auto simp: prefix_def)
  then show "occursAt s pat 0" by (simp add: occursAt_def)
qed

lemma occursAt_Suc: "occursAt (c # cs) pat (Suc i) \<longleftrightarrow> occursAt cs pat i"
  by (simp add: occursAt_def)

lemma occursAt_sublist: "sublist pat s \<longleftrightarrow> (\<exists>i. occursAt s pat i)"
proof
  assume "sublist pat s"
  then obtain ps ss where "s = ps @ pat @ ss" by (auto simp: sublist_def)
  then have "occursAt s pat (length ps)" by (simp add: occursAt_def)
  then show "\<exists>i. occursAt s pat i" ..
next
  assume "\<exists>i. occursAt s pat i"
  then obtain i where i: "take (length pat) (drop i s) = pat"
    by (auto simp: occursAt_def)
  have "s = take i s @ drop i s"
    by simp
  also have "drop i s = take (length pat) (drop i s) @ drop (length pat) (drop i s)"
    by (simp only: append_take_drop_id)
  finally have "s = take i s @ take (length pat) (drop i s) @ drop (length pat) (drop i s)" .
  with i have "s = take i s @ pat @ drop (length pat) (drop i s)"
    by simp
  then show "sublist pat s" unfolding sublist_def by blast
qed

lemma firstOccurrence_ex:
  assumes "sublist pat s"
  shows "\<exists>i. firstOccurrence s pat i"
proof -
  from assms obtain i where i: "occursAt s pat i"
    unfolding occursAt_sublist by (rule exE)
  let ?m = "LEAST i. occursAt s pat i"
  from i have a: "occursAt s pat ?m"
    by (rule LeastI [where P = "occursAt s pat"])
  have b: "\<forall>j<?m. \<not> occursAt s pat j"
  proof (intro allI impI)
    fix j assume "j < ?m"
    then show "\<not> occursAt s pat j"
      by (rule not_less_Least [where P = "occursAt s pat"])
  qed
  have "firstOccurrence s pat ?m"
    unfolding firstOccurrence_iff
  proof (rule conjI)
    show "occursAt s pat ?m" by (rule a)
    show "\<forall>j<?m. \<not> occursAt s pat j" by (rule b)
  qed
  then show ?thesis by (rule exI)
qed

lemma indexOfFrom_first:
  assumes "firstOccurrence s pat i"
  shows "indexOfFrom k pat s = int (k + i)"
  using assms
proof (induction s arbitrary: k i)
  case Nil
  then show ?case by (simp add: firstOccurrence_iff occursAt_def)
next
  case (Cons c cs)
  show ?case
  proof (cases "prefix pat (c # cs)")
    case True
    then have "occursAt (c # cs) pat 0" by (simp add: occursAt_0)
    with Cons.prems have "i = 0" by (auto simp: firstOccurrence_iff)
    with True show ?thesis by simp
  next
    case False
    then have n0: "\<not> occursAt (c # cs) pat 0" by (simp add: occursAt_0)
    with Cons.prems obtain i' where i: "i = Suc i'"
      by (cases i) (auto simp: firstOccurrence_iff)
    have "firstOccurrence cs pat i'"
      unfolding firstOccurrence_iff
    proof (intro conjI allI impI)
      show "occursAt cs pat i'" using Cons.prems i by (simp add: firstOccurrence_iff occursAt_Suc)
    next
      fix j assume "j < i'"
      then have "Suc j < i" using i by simp
      with Cons.prems have "\<not> occursAt (c # cs) pat (Suc j)" by (simp add: firstOccurrence_iff)
      then show "\<not> occursAt cs pat j" by (simp add: occursAt_Suc)
    qed
    from Cons.IH [OF this, of "Suc k"] False i show ?thesis by simp
  qed
qed

lemma indexOfFrom_none:
  assumes "\<not> sublist pat s"
  shows "indexOfFrom k pat s = - 1"
  using assms
proof (induction s arbitrary: k)
  case Nil
  then show ?case by simp
next
  case (Cons c cs)
  then have "\<not> prefix pat (c # cs)" "\<not> sublist pat cs"
    by (auto simp: sublist_Cons_right)
  with Cons.IH show ?case by simp
qed

lemma indexOf_first: "firstOccurrence s pat i \<Longrightarrow> indexOf s pat = int i"
  using indexOfFrom_first [of s pat i 0] by (simp add: indexOf_def)

lemma indexOf_none: "\<not> sublist pat s \<Longrightarrow> indexOf s pat = - 1"
  by (simp add: indexOf_def indexOfFrom_none)



lemma isRuleUsed_first:
  assumes "firstOccurrence cssText rule i"
  shows "isRuleUsed rule cssText ranges = list_ex (spanInside i (length rule)) ranges"
  using indexOf_first [OF assms] by (simp add: isRuleUsed_def Let_def list_ex_iff spanInside_def)

lemma trim_sublist: "sublist (trim s) s"
proof -
  let ?d = "dropWhile isWhiteSpace s"
  have "sublist (dropWhile isWhiteSpace (rev ?d)) (rev ?d)" by simp
  then have "sublist (trim s) ?d" by (simp add: trim_def sublist_rev_left)
  moreover have "sublist ?d s" by simp
  ultimately show ?thesis by (rule sublist_order.order.trans)
qed

lemma parseStep_cases:
  "(rules (parseStep st c) = rules st \<and> currentRule (parseStep st c) = currentRule st @ [c])
   \<or> (rules (parseStep st c) = rules st @ [trim (currentRule st @ [c])]
       \<and> currentRule (parseStep st c) = [])"
  by (simp add: parseStep_def Let_def)

lemma sublist_trans: "sublist xs ys \<Longrightarrow> sublist ys zs \<Longrightarrow> sublist xs zs"
  by (rule sublist_order.order.trans)

lemma parse_invariant:
  "(\<forall>r\<in>set (rules (foldl parseStep parseInit s)). sublist r s)
   \<and> suffix (currentRule (foldl parseStep parseInit s)) s"
proof (induction s rule: rev_induct)
  case Nil
  show ?case by (simp add: parseInit_def)
next
  case (snoc c s)
  let ?st = "foldl parseStep parseInit s"
  have ext: "sublist s (s @ [c])" by simp
  have old: "\<forall>r\<in>set (rules ?st). sublist r (s @ [c])"
  proof
    fix r assume "r \<in> set (rules ?st)"
    with snoc have "sublist r s" by blast
    then show "sublist r (s @ [c])" using ext by (rule sublist_trans)
  qed
  from snoc have cur: "suffix (currentRule ?st @ [c]) (s @ [c])" by simp
  then have "sublist (currentRule ?st @ [c]) (s @ [c])" by (rule suffix_imp_sublist)
  with trim_sublist have new: "sublist (trim (currentRule ?st @ [c])) (s @ [c])"
    by (rule sublist_trans)
  have step: "foldl parseStep parseInit (s @ [c]) = parseStep ?st c" by simp
  from parseStep_cases [of ?st c] show ?case
  proof
    assume "rules (parseStep ?st c) = rules ?st \<and> currentRule (parseStep ?st c) = currentRule ?st @ [c]"
    with old cur show ?thesis unfolding step by simp
  next
    assume "rules (parseStep ?st c) = rules ?st @ [trim (currentRule ?st @ [c])]
       \<and> currentRule (parseStep ?st c) = []"
    with old new show ?thesis unfolding step by simp
  qed
qed

lemma parse_rules_sublist: "rule \<in> set (parseCSSRules cssText) \<Longrightarrow> sublist rule cssText"
  using parse_invariant [of cssText] by (simp add: parseCSSRules_def)

section \<open>The classifier: claims\<close>

text \<open>
  C3. \<open>isRuleUsed\<close> takes \<open>ruleStart\<close> to be the first occurrence of the rule's text in the
  stylesheet text. When the text does not occur, \<open>indexOf\<close> gives -1 and the rule is
  unused; when it occurs it has a first occurrence \<open>i\<close>, \<open>indexOf\<close> gives \<open>i\<close>, and the rule
  is used iff some range \<open>r\<close> has \<open>i \<ge> r.start\<close> and \<open>i + length rule \<le> r.end\<close>.
\<close>

theorem isRuleUsed_first_occurrence:
  "(\<not> sublist rule cssText \<longrightarrow>
       indexOf cssText rule = - 1 \<and> \<not> isRuleUsed rule cssText ranges)
   \<and> (sublist rule cssText \<longrightarrow> (\<exists>i. firstOccurrence cssText rule i))
   \<and> (firstOccurrence cssText rule i \<longrightarrow>
       indexOf cssText rule = int i
       \<and> isRuleUsed rule cssText ranges
           = (\<exists>r\<in>set ranges. int i \<ge> range_start r \<and> int i + int (length rule) \<le> range_end r))"
proof (intro conjI impI)
  assume n: "\<not> sublist rule cssText"
  then show "indexOf cssText rule = - 1" by (rule indexOf_none)
  then show "\<not> isRuleUsed rule cssText ranges" by (simp add: isRuleUsed_def)
next
  assume "sublist rule cssText"
  then show "\<exists>i. firstOccurrence cssText rule i" by (rule firstOccurrence_ex)
next
  assume f: "firstOccurrence cssText rule i"
  then show "indexOf cssText rule = int i" by (rule indexOf_first)
  from isRuleUsed_first [OF f]
  show "isRuleUsed rule cssText ranges
           = (\<exists>r\<in>set ranges. int i \<ge> range_start r \<and> int i + int (length rule) \<le> range_end r)"
    by (simp add: list_ex_iff spanInside_def)
qed

theorem isRuleUsed_first_occurrence_witness:
  "\<not> sublist (js ''.c{}'') (js ''.a{color:red}.b{color:blue}'')
   \<and> indexOf (js ''.a{color:red}.b{color:blue}'') (js ''.c{}'') = - 1
   \<and> \<not> isRuleUsed (js ''.c{}'') (js ''.a{color:red}.b{color:blue}'')
         [\<lparr>range_start = 0, range_end = 27\<rparr>]
   \<and> sublist (js ''.b{color:blue}'') (js ''.a{color:red}.b{color:blue}'')
   \<and> firstOccurrence (js ''.a{color:red}.b{color:blue}'') (js ''.b{color:blue}'') 13
   \<and> indexOf (js ''.a{color:red}.b{color:blue}'') (js ''.b{color:blue}'') = 13
   \<and> isRuleUsed (js ''.b{color:blue}'') (js ''.a{color:red}.b{color:blue}'')
         [\<lparr>range_start = 0, range_end = 13\<rparr>, \<lparr>range_start = 13, range_end = 27\<rparr>]"
proof -
  let ?T = "js ''.a{color:red}.b{color:blue}''"
  have h1: "\<not> sublist (js ''.c{}'') ?T"
    by code_simp
  have h2: "sublist (js ''.b{color:blue}'') ?T"
    by code_simp
  have h3: "firstOccurrence ?T (js ''.b{color:blue}'') 13"
    by code_simp
  have v: "length (js ''.b{color:blue}'') = 14"
    by (simp add: js_def)
  note t1 = isRuleUsed_first_occurrence
    [where rule = "js ''.c{}''" and cssText = ?T
       and ranges = "[\<lparr>range_start = 0, range_end = 27\<rparr>]"]
  note t2 = isRuleUsed_first_occurrence
    [where rule = "js ''.b{color:blue}''" and cssText = ?T and i = 13
       and ranges = "[\<lparr>range_start = 0, range_end = 13\<rparr>, \<lparr>range_start = 13, range_end = 27\<rparr>]"]
  from t1 h1 have a: "indexOf ?T (js ''.c{}'') = - 1"
    "\<not> isRuleUsed (js ''.c{}'') ?T [\<lparr>range_start = 0, range_end = 27\<rparr>]"
    by blast+
  from t2 h3 have b: "indexOf ?T (js ''.b{color:blue}'') = 13"
    by simp
  from t2 h3 v have c: "isRuleUsed (js ''.b{color:blue}'') ?T
         [\<lparr>range_start = 0, range_end = 13\<rparr>, \<lparr>range_start = 13, range_end = 27\<rparr>]"
    by simp
  from h1 h2 h3 a b c show ?thesis by simp
qed

text \<open>
  C9. Every rule the segmenter emits for a text is a contiguous part of that text, so
  the search of \<open>isRuleUsed\<close> for a segmented rule in its own stylesheet text succeeds:
  \<open>indexOf\<close> returns the offset of the first occurrence, never -1.
\<close>

theorem segmented_rule_is_found:
  "rule \<in> set (parseCSSRules cssText) \<Longrightarrow>
     sublist rule cssText \<and> indexOf cssText rule \<noteq> - 1
     \<and> (\<exists>i. firstOccurrence cssText rule i \<and> indexOf cssText rule = int i)"
proof -
  assume "rule \<in> set (parseCSSRules cssText)"
  then have s: "sublist rule cssText" by (rule parse_rules_sublist)
  then obtain i where i: "firstOccurrence cssText rule i"
    using firstOccurrence_ex by blast
  then have e: "indexOf cssText rule = int i" by (rule indexOf_first)
  then have "indexOf cssText rule \<noteq> - 1" by simp
  with s i e show ?thesis by blast
qed

theorem segmented_rule_is_found_witness:
  "js ''.b{color:blue}'' \<in> set (parseCSSRules (js ''.a{color:red} .b{color:blue} ''))
   \<and> sublist (js ''.b{color:blue}'') (js ''.a{color:red} .b{color:blue} '')
   \<and> indexOf (js ''.a{color:red} .b{color:blue} '') (js ''.b{color:blue}'') \<noteq> - 1"
proof -
  have h: "js ''.b{color:blue}'' \<in> set (parseCSSRules (js ''.a{color:red} .b{color:blue} ''))"
    by code_simp
  from segmented_rule_is_found [OF h] h show ?thesis by blast
qed

text \<open>
  C2 as stated fails for a rule whose text also occurs earlier in the stylesheet. The
  text \<open>x a{}a{}\<close> segments into \<open>x a{}\<close> and \<open>a{}\<close>; the second rule sits at offsets 5 to 8,
  but its text occurs first at offset 2, inside the first rule. With the single range
  [5, 8), which holds the second rule's entire span, the rule is classified unused; with
  the single range [0, 6), which overlaps that span only in part, it is classified used.
\<close>

theorem rule_span_counterexample:
  "parseCSSRules (js ''x a{}a{}'') = [js ''x a{}'', js ''a{}'']
   \<and> js ''x a{}a{}'' = js ''x a{}'' @ js ''a{}''
   \<and> length (js ''x a{}'') = 5 \<and> length (js ''a{}'') = 3
   \<and> spanInside 5 3 \<lparr>range_start = 5, range_end = 8\<rparr>
   \<and> \<not> isRuleUsed (js ''a{}'') (js ''x a{}a{}'') [\<lparr>range_start = 5, range_end = 8\<rparr>]
   \<and> \<not> spanInside 5 3 \<lparr>range_start = 0, range_end = 6\<rparr>
   \<and> isRuleUsed (js ''a{}'') (js ''x a{}a{}'') [\<lparr>range_start = 0, range_end = 6\<rparr>]"
  by code_simp

text \<open>
  C2, amended. For every rule produced by segmenting a stylesheet's text, the text of
  the rule occurs in the stylesheet, and with the span of the rule taken at the first
  occurrence \<open>i\<close> of its text, \<open>[i, i + length rule)\<close>: the rule is classified used iff that
  span lies inside one single range. So it is used when the span lies inside a range,
  and unused when the span is inside no single range, partial overlap or not.
\<close>

theorem segmented_rule_used_iff_first_span_inside:
  "rule \<in> set (parseCSSRules cssText) \<Longrightarrow>
     \<exists>i. firstOccurrence cssText rule i
       \<and> (isRuleUsed rule cssText ranges \<longleftrightarrow> (\<exists>r\<in>set ranges. spanInside i (length rule) r))"
proof -
  assume "rule \<in> set (parseCSSRules cssText)"
  then have "sublist rule cssText" by (rule parse_rules_sublist)
  then obtain i where i: "firstOccurrence cssText rule i"
    using firstOccurrence_ex by blast
  from isRuleUsed_first [OF i]
  have "isRuleUsed rule cssText ranges \<longleftrightarrow> (\<exists>r\<in>set ranges. spanInside i (length rule) r)"
    by (simp add: list_ex_iff)
  with i show ?thesis by blast
qed

theorem segmented_rule_used_iff_first_span_inside_witness:
  "js ''.b{color:blue}'' \<in> set (parseCSSRules (js ''.a{color:red}.b{color:blue}''))
   \<and> firstOccurrence (js ''.a{color:red}.b{color:blue}'') (js ''.b{color:blue}'') 13
   \<and> spanInside 13 14 \<lparr>range_start = 10, range_end = 27\<rparr>
   \<and> isRuleUsed (js ''.b{color:blue}'') (js ''.a{color:red}.b{color:blue}'')
        [\<lparr>range_start = 10, range_end = 27\<rparr>]
   \<and> \<not> spanInside 13 14 \<lparr>range_start = 0, range_end = 20\<rparr>
   \<and> \<not> isRuleUsed (js ''.b{color:blue}'') (js ''.a{color:red}.b{color:blue}'')
        [\<lparr>range_start = 0, range_end = 20\<rparr>]"
proof -
  let ?T = "js ''.a{color:red}.b{color:blue}''"
  let ?R = "js ''.b{color:blue}''"
  have h: "?R \<in> set (parseCSSRules ?T)"
    by code_simp
  have f: "firstOccurrence ?T ?R 13"
    by code_simp
  have u: "\<And>i. firstOccurrence ?T ?R i \<Longrightarrow> i = 13"
    using f by (metis firstOccurrence_iff nat_neq_iff)
  have l: "length ?R = 14" by (simp add: js_def)
  have s1: "spanInside 13 14 \<lparr>range_start = 10, range_end = 27\<rparr>"
    and s2: "\<not> spanInside 13 14 \<lparr>range_start = 0, range_end = 20\<rparr>"
    by (simp_all add: spanInside_def)
  from segmented_rule_used_iff_first_span_inside [OF h, of "[\<lparr>range_start = 10, range_end = 27\<rparr>]"] u l s1
  have a: "isRuleUsed ?R ?T [\<lparr>range_start = 10, range_end = 27\<rparr>]"
    by auto
  from segmented_rule_used_iff_first_span_inside [OF h, of "[\<lparr>range_start = 0, range_end = 20\<rparr>]"] u l s2
  have b: "\<not> isRuleUsed ?R ?T [\<lparr>range_start = 0, range_end = 20\<rparr>]"
    by auto
  from h f s1 s2 a b show ?thesis by simp
qed

section \<open>Properties of the analysis loop\<close>

lemma jsSplit_first: "\<exists>ps. jsSplit sep s = takeWhile (\<lambda>c. c \<noteq> sep) s # ps"
proof (induction s)
  case Nil
  show ?case by simp
next
  case (Cons c cs)
  then obtain ps where "jsSplit sep cs = takeWhile (\<lambda>c. c \<noteq> sep) cs # ps" ..
  then show ?case by simp
qed

lemma ruleSelector_eq: "ruleSelector rule = Inr (trim (takeWhile (\<lambda>c. c \<noteq> LBRACE) rule))"
proof -
  obtain ps where "jsSplit LBRACE rule = takeWhile (\<lambda>c. c \<noteq> LBRACE) rule # ps"
    using jsSplit_first by blast
  then show ?thesis by (simp add: ruleSelector_def)
qed

lemma unusedLoop_eq:
  "unusedLoop entry rs acc =
     Inr (acc @ map unusedRuleOf
            (filter (\<lambda>rule. \<not> isRuleUsed rule (entry_text entry) (entry_ranges entry)) rs))"
  by (induction rs arbitrary: acc) (simp_all add: ruleSelector_eq unusedRuleOf_def)

lemma foldl_plus:
  "foldl (\<lambda>sum (r::CoverageRange). sum + f r) (a::int) rs = a + sum_list (map f rs)"
  by (induction rs arbitrary: a) simp_all

lemma usedOf_sum: "usedOf rs = coveredBytes rs"
  by (simp add: usedOf_def coveredBytes_def foldl_plus)

lemma entryDetail_eq:
  "entryDetail entry =
     Inr \<lparr>url = (if entry_url entry = [] then js ''inline <style>'' else entry_url entry),
          total = int (length (entry_text entry)),
          used = coveredBytes (entry_ranges entry),
          unusedRules = map unusedRuleOf
            (filter (\<lambda>rule. \<not> isRuleUsed rule (entry_text entry) (entry_ranges entry))
               (parseCSSRules (entry_text entry)))\<rparr>"
  by (simp add: entryDetail_def unusedLoop_eq usedOf_sum)

lemma coveredBytes_nonneg: "endAfterStart rs \<Longrightarrow> 0 \<le> coveredBytes rs"
  by (induction rs) (simp_all add: endAfterStart_def coveredBytes_def)

lemma coveredBytes_card:
  assumes "list_all (\<lambda>r. range_start r \<le> range_end r) rs" "disjointRanges rs"
  shows "coveredBytes rs = int (card (\<Union>r\<in>set rs. {range_start r..<range_end r}))"
  using assms
proof (induction rs)
  case Nil
  show ?case by (simp add: coveredBytes_def)
next
  case (Cons r rs)
  let ?A = "{range_start r..<range_end r}"
  let ?U = "\<Union>q\<in>set rs. {range_start q..<range_end q}"
  from Cons have ih: "coveredBytes rs = int (card ?U)" by simp
  have "?A \<inter> ?U = {}"
  proof (rule ccontr)
    assume "?A \<inter> ?U \<noteq> {}"
    then obtain x q where x: "x \<in> ?A" "q \<in> set rs" "x \<in> {range_start q..<range_end q}"
      by blast
    from Cons.prems(2) x(2) have "range_end r \<le> range_start q \<or> range_end q \<le> range_start r"
      by (simp add: list_all_iff)
    with x(1,3) show False by auto
  qed
  moreover have "finite ?A" "finite ?U" by simp_all
  ultimately have "card (?A \<union> ?U) = card ?A + card ?U"
    by (simp add: card_Un_disjoint)
  moreover have "int (card ?A) = range_end r - range_start r"
    using Cons.prems(1) by simp
  moreover have "coveredBytes (r # rs) = (range_end r - range_start r) + coveredBytes rs"
    by (simp add: coveredBytes_def)
  ultimately show ?case using ih by simp
qed

lemma coveredBytes_le:
  assumes "0 \<le> n" "rangesWithin n rs" "disjointRanges rs"
  shows "coveredBytes rs \<le> n"
proof -
  let ?U = "\<Union>r\<in>set rs. {range_start r..<range_end r}"
  from assms(2) have "list_all (\<lambda>r. range_start r \<le> range_end r) rs"
    by (auto simp: rangesWithin_def list_all_iff)
  from coveredBytes_card [OF this assms(3)] have c: "coveredBytes rs = int (card ?U)" .
  have "?U \<subseteq> {0..<n}"
    using assms(2) by (auto simp: rangesWithin_def list_all_iff)
  moreover have "finite {0..<n}" by simp
  ultimately have "card ?U \<le> card {0..<n}" by (rule card_mono [rotated])
  moreover have "card {0..<n} = nat n" by simp
  ultimately show ?thesis using c assms(1) by simp
qed

lemma coverageLoop_eq:
  "\<exists>ds. map entryDetail es = map Inr ds
      \<and> (\<forall>d\<in>set ds. 0 \<le> total d)
      \<and> coverageLoop es acc =
          Inr \<lparr>accTotalBytes = accTotalBytes acc + sum_list (map total ds),
               accUsedBytes = accUsedBytes acc + sum_list (map used ds),
               accFiles = accFiles acc @ ds\<rparr>"
proof (induction es arbitrary: acc)
  case Nil
  show ?case by (intro exI [of _ "[]"]) simp
next
  case (Cons e es)
  obtain d where d: "entryDetail e = Inr d" "0 \<le> total d"
    using entryDetail_eq [of e] by simp
  let ?acc = "\<lparr>accTotalBytes = accTotalBytes acc + total d,
             accUsedBytes = accUsedBytes acc + used d,
             accFiles = accFiles acc @ [d]\<rparr>"
  from Cons [of ?acc] obtain ds where ds: "map entryDetail es = map Inr ds"
    "\<forall>d\<in>set ds. 0 \<le> total d"
    "coverageLoop es ?acc =
          Inr \<lparr>accTotalBytes = accTotalBytes ?acc + sum_list (map total ds),
               accUsedBytes = accUsedBytes ?acc + sum_list (map used ds),
               accFiles = accFiles ?acc @ ds\<rparr>"
    by blast
  show ?case
    by (intro exI [of _ "d # ds"]) (simp add: d ds add.assoc)
qed

lemma sum_list_nonneg_total: "\<forall>d\<in>set ds. 0 \<le> total d \<Longrightarrow> 0 \<le> sum_list (map total ds)"
  by (induction ds) simp_all

lemma analyze_eq:
  "\<exists>ds. map entryDetail es = map Inr ds
      \<and> 0 \<le> sum_list (map total ds)
      \<and> analyze rnd es =
          Inr \<lparr>totalBytes = sum_list (map total ds),
               usedBytes = sum_list (map used ds),
               usagePercent = usagePercentOf rnd (sum_list (map total ds)) (sum_list (map used ds)),
               files = ds\<rparr>"
proof -
  obtain ds where ds: "map entryDetail es = map Inr ds" "\<forall>d\<in>set ds. 0 \<le> total d"
    "coverageLoop es \<lparr>accTotalBytes = 0, accUsedBytes = 0, accFiles = []\<rparr> =
          Inr \<lparr>accTotalBytes = sum_list (map total ds),
               accUsedBytes = sum_list (map used ds),
               accFiles = ds\<rparr>"
    using coverageLoop_eq [of es "\<lparr>accTotalBytes = 0, accUsedBytes = 0, accFiles = []\<rparr>"]
    by auto
  from ds(2) have "0 \<le> sum_list (map total ds)" by (rule sum_list_nonneg_total)
  with ds(1,3) show ?thesis by (intro exI [of _ ds]) (simp add: analyze_def)
qed





section \<open>The aggregation and the cache: claims\<close>

text \<open>
  C1 as stated fails: \<open>used\<close> adds the lengths of the ranges as they come, so ranges
  that overlap are counted twice. For the text \<open>ab\<close> with the ranges [0, 2) and [1, 2),
  each with end > start and inside the text, \<open>used\<close> is 3 and \<open>total\<close> is 2.
\<close>

theorem used_exceeds_total_counterexample:
  "endAfterStart [\<lparr>range_start = 0, range_end = 2\<rparr>, \<lparr>range_start = 1, range_end = 2\<rparr>]
   \<and> entryDetail \<lparr>entry_url = js ''a.css'', entry_text = js ''ab'',
         entry_ranges = [\<lparr>range_start = 0, range_end = 2\<rparr>, \<lparr>range_start = 1, range_end = 2\<rparr>]\<rparr>
       = Inr \<lparr>url = js ''a.css'', total = 2, used = 3, unusedRules = []\<rparr>"
  by code_simp

text \<open>
  C1, amended. For every coverage entry the file record is produced, with
  \<open>total = length text\<close> and \<open>used\<close> the sum of \<open>end - start\<close> over the ranges; \<open>0 \<le> used\<close>
  when every range has end > start; and \<open>used \<le> total\<close> when moreover the ranges lie
  inside the text and no two of them overlap.
\<close>

theorem entryDetail_used_total:
  "\<exists>d. entryDetail entry = Inr d
     \<and> total d = int (length (entry_text entry))
     \<and> used d = coveredBytes (entry_ranges entry)
     \<and> (endAfterStart (entry_ranges entry) \<longrightarrow> 0 \<le> used d)
     \<and> (rangesWithin (total d) (entry_ranges entry) \<and> disjointRanges (entry_ranges entry)
          \<longrightarrow> used d \<le> total d)"
proof -
  let ?d = "\<lparr>url = (if entry_url entry = [] then js ''inline <style>'' else entry_url entry),
          total = int (length (entry_text entry)),
          used = coveredBytes (entry_ranges entry),
          unusedRules = map unusedRuleOf
            (filter (\<lambda>rule. \<not> isRuleUsed rule (entry_text entry) (entry_ranges entry))
               (parseCSSRules (entry_text entry)))\<rparr>"
  have "entryDetail entry = Inr ?d" by (rule entryDetail_eq)
  moreover have "endAfterStart (entry_ranges entry) \<longrightarrow> 0 \<le> used ?d"
    by (simp add: coveredBytes_nonneg)
  moreover have "rangesWithin (total ?d) (entry_ranges entry) \<and> disjointRanges (entry_ranges entry)
          \<longrightarrow> used ?d \<le> total ?d"
    using coveredBytes_le [of "int (length (entry_text entry))" "entry_ranges entry"] by simp
  ultimately show ?thesis
    by (intro exI [of _ ?d]) simp
qed

theorem entryDetail_used_total_witness:
  "endAfterStart [\<lparr>range_start = 0, range_end = 13\<rparr>, \<lparr>range_start = 20, range_end = 27\<rparr>]
   \<and> rangesWithin 27 [\<lparr>range_start = 0, range_end = 13\<rparr>, \<lparr>range_start = 20, range_end = 27\<rparr>]
   \<and> disjointRanges [\<lparr>range_start = 0, range_end = 13\<rparr>, \<lparr>range_start = 20, range_end = 27\<rparr>]
   \<and> (\<exists>d. entryDetail \<lparr>entry_url = js ''a.css'', entry_text = js ''.a{color:red}.b{color:blue}'',
               entry_ranges = [\<lparr>range_start = 0, range_end = 13\<rparr>, \<lparr>range_start = 20, range_end = 27\<rparr>]\<rparr>
             = Inr d
          \<and> total d = 27 \<and> used d = 20 \<and> 0 \<le> used d \<and> used d \<le> total d)"
proof -
  let ?rs = "[\<lparr>range_start = 0, range_end = 13\<rparr>, \<lparr>range_start = 20, range_end = 27\<rparr>]"
  let ?e = "\<lparr>entry_url = js ''a.css'', entry_text = js ''.a{color:red}.b{color:blue}'',
             entry_ranges = ?rs\<rparr>"
  have h1: "endAfterStart ?rs" by code_simp
  have h2: "rangesWithin 27 ?rs" by code_simp
  have h3: "disjointRanges ?rs" by code_simp
  have v: "int (length (js ''.a{color:red}.b{color:blue}'')) = 27" "coveredBytes ?rs = 20"
    by (simp_all add: js_def coveredBytes_def)
  from entryDetail_used_total [of ?e] obtain d where d: "entryDetail ?e = Inr d"
    "total d = int (length (entry_text ?e))" "used d = coveredBytes (entry_ranges ?e)"
    "endAfterStart (entry_ranges ?e) \<longrightarrow> 0 \<le> used d"
    "rangesWithin (total d) (entry_ranges ?e) \<and> disjointRanges (entry_ranges ?e) \<longrightarrow> used d \<le> total d"
    by blast
  from d v h1 h2 h3 have "entryDetail ?e = Inr d \<and> total d = 27 \<and> used d = 20 \<and> 0 \<le> used d \<and> used d \<le> total d"
    by simp
  then have "\<exists>d. entryDetail ?e = Inr d \<and> total d = 27 \<and> used d = 20 \<and> 0 \<le> used d \<and> used d \<le> total d" ..
  with h1 h2 h3 show ?thesis by blast
qed

text \<open>
  C8. For every coverage entry the file record is produced and its \<open>unusedRules\<close> are
  the rules of the segmentation that \<open>isRuleUsed\<close> rejects, in segmentation order, each as
  the record \<open>unusedRuleOf rule\<close>: the trimmed text before the first opening brace as
  selector, \<open>used = false\<close>, and the length of the rule as bytes. Each rule of the
  segmentation is classified once: it is either listed or used.
\<close>

theorem entryDetail_unusedRules:
  "\<exists>d. entryDetail entry = Inr d
     \<and> unusedRules d = map unusedRuleOf
          (filter (\<lambda>rule. \<not> isRuleUsed rule (entry_text entry) (entry_ranges entry))
             (parseCSSRules (entry_text entry)))
     \<and> list_all (\<lambda>u. \<not> CSSRule.used u) (unusedRules d)
     \<and> length (unusedRules d)
         + length (filter (\<lambda>rule. isRuleUsed rule (entry_text entry) (entry_ranges entry))
             (parseCSSRules (entry_text entry)))
       = length (parseCSSRules (entry_text entry))"
proof -
  let ?P = "\<lambda>rule. isRuleUsed rule (entry_text entry) (entry_ranges entry)"
  let ?rs = "parseCSSRules (entry_text entry)"
  let ?d = "\<lparr>url = (if entry_url entry = [] then js ''inline <style>'' else entry_url entry),
          total = int (length (entry_text entry)),
          used = coveredBytes (entry_ranges entry),
          unusedRules = map unusedRuleOf (filter (\<lambda>rule. \<not> ?P rule) ?rs)\<rparr>"
  have "entryDetail entry = Inr ?d" by (rule entryDetail_eq)
  moreover have "list_all (\<lambda>u. \<not> CSSRule.used u) (unusedRules ?d)"
    by (simp add: list_all_iff unusedRuleOf_def)
  moreover have "length (unusedRules ?d) + length (filter ?P ?rs) = length ?rs"
    using sum_length_filter_compl [of ?P ?rs] by simp
  ultimately show ?thesis
    by (intro exI [of _ ?d]) simp
qed

theorem entryDetail_unusedRules_witness:
  "\<exists>d. entryDetail \<lparr>entry_url = js ''a.css'', entry_text = js ''.a{color:red} .b {color:blue}'',
               entry_ranges = [\<lparr>range_start = 0, range_end = 13\<rparr>]\<rparr>
          = Inr d
       \<and> unusedRules d = [\<lparr>selector = js ''.b'', CSSRule.used = False, bytes = 15\<rparr>]"
proof -
  let ?T = "js ''.a{color:red} .b {color:blue}''"
  let ?rs = "[\<lparr>range_start = 0, range_end = 13\<rparr>]"
  let ?e = "\<lparr>entry_url = js ''a.css'', entry_text = ?T, entry_ranges = ?rs\<rparr>"
  have v: "map unusedRuleOf (filter (\<lambda>rule. \<not> isRuleUsed rule ?T ?rs) (parseCSSRules ?T))
        = [\<lparr>selector = js ''.b'', CSSRule.used = False, bytes = 15\<rparr>]"
    by code_simp
  have s: "entry_text ?e = ?T" "entry_ranges ?e = ?rs"
    by simp_all
  from entryDetail_unusedRules [of ?e] obtain d where d: "entryDetail ?e = Inr d"
    and u: "unusedRules d = map unusedRuleOf
          (filter (\<lambda>rule. \<not> isRuleUsed rule (entry_text ?e) (entry_ranges ?e))
             (parseCSSRules (entry_text ?e)))"
    by (elim exE conjE) (rule that)
  from u have "unusedRules d = [\<lparr>selector = js ''.b'', CSSRule.used = False, bytes = 15\<rparr>]"
    unfolding s v .
  with d have c: "entryDetail ?e = Inr d
       \<and> unusedRules d = [\<lparr>selector = js ''.b'', CSSRule.used = False, bytes = 15\<rparr>]"
    by (rule conjI)
  show ?thesis by (rule exI) (rule c)
qed

text \<open>
  C5. For every list of coverage entries the analysis produces a result whose
  \<open>totalBytes\<close> is the sum of the \<open>total\<close> of its files and whose \<open>usedBytes\<close> is the sum of
  their \<open>used\<close>, and whose files are the file records of the entries, in the order of the
  entries.
\<close>

theorem analyze_sums:
  "\<exists>res. analyze rnd cssCoverage = Inr res
     \<and> totalBytes res = sum_list (map total (files res))
     \<and> usedBytes res = sum_list (map used (files res))
     \<and> map Inr (files res) = map entryDetail cssCoverage"
proof -
  obtain ds where ds: "map entryDetail cssCoverage = map Inr ds"
    "analyze rnd cssCoverage =
          Inr \<lparr>totalBytes = sum_list (map total ds),
               usedBytes = sum_list (map used ds),
               usagePercent = usagePercentOf rnd (sum_list (map total ds)) (sum_list (map used ds)),
               files = ds\<rparr>"
    using analyze_eq [of cssCoverage rnd] by blast
  show ?thesis
    by (rule exI, rule conjI, rule ds(2)) (simp add: ds(1))
qed

theorem analyze_sums_witness:
  "\<exists>res. analyze Finite
        [\<lparr>entry_url = js ''a.css'', entry_text = js ''.a{color:red}.b{color:blue}'',
          entry_ranges = [\<lparr>range_start = 0, range_end = 13\<rparr>]\<rparr>,
         \<lparr>entry_url = [], entry_text = js ''p{}'', entry_ranges = [\<lparr>range_start = 0, range_end = 3\<rparr>]\<rparr>]
       = Inr res
     \<and> totalBytes res = 30 \<and> usedBytes res = 16
     \<and> map url (files res) = [js ''a.css'', js ''inline <style>'']
     \<and> map total (files res) = [27, 3] \<and> map used (files res) = [13, 3]"
proof -
  let ?e1 = "\<lparr>entry_url = js ''a.css'', entry_text = js ''.a{color:red}.b{color:blue}'',
          entry_ranges = [\<lparr>range_start = 0, range_end = 13\<rparr>]\<rparr>"
  let ?e2 = "\<lparr>entry_url = [], entry_text = js ''p{}'', entry_ranges = [\<lparr>range_start = 0, range_end = 3\<rparr>]\<rparr>"
  have v1: "entryDetail ?e1 = Inr \<lparr>url = js ''a.css'', total = 27, used = 13,
      unusedRules = [\<lparr>selector = js ''.b'', CSSRule.used = False, bytes = 14\<rparr>]\<rparr>"
    by code_simp
  have v2: "entryDetail ?e2 = Inr \<lparr>url = js ''inline <style>'', total = 3, used = 3, unusedRules = []\<rparr>"
    by code_simp
  from analyze_sums [of Finite "[?e1, ?e2]"] obtain res where res: "analyze Finite [?e1, ?e2] = Inr res"
    "totalBytes res = sum_list (map total (files res))"
    "usedBytes res = sum_list (map used (files res))"
    "map Inr (files res) = map entryDetail [?e1, ?e2]"
    by blast
  from res(4) v1 v2 have f: "files res = [\<lparr>url = js ''a.css'', total = 27, used = 13,
      unusedRules = [\<lparr>selector = js ''.b'', CSSRule.used = False, bytes = 14\<rparr>]\<rparr>,
      \<lparr>url = js ''inline <style>'', total = 3, used = 3, unusedRules = []\<rparr>]"
    by (auto simp: map_eq_Cons_conv)
  from res(1,2,3) f have c: "analyze Finite [?e1, ?e2] = Inr res
     \<and> totalBytes res = 30 \<and> usedBytes res = 16
     \<and> map url (files res) = [js ''a.css'', js ''inline <style>'']
     \<and> map total (files res) = [27, 3] \<and> map used (files res) = [13, 3]"
    by simp
  show ?thesis by (rule exI) (rule c)
qed



text \<open>
  C7. After \<open>put(k, v)\<close> at time \<open>t\<close>, \<open>get(k)\<close> at time \<open>now\<close> returns \<open>v\<close> when
  \<open>now - t < TTL\<close> and is absent otherwise, whatever the cache held before; the TTL is
  one hour in milliseconds; and a put replaces any earlier entry of the same key.
\<close>

theorem cache_round_trip:
  "cacheGet (cachePut cache k v t) k now = (if now - t < CACHE_TTL then Some v else None)
   \<and> CACHE_TTL = 3600000
   \<and> (cachePut cache k v t) k = Some \<lparr>result = v, timestamp = t\<rparr>
   \<and> cachePut (cachePut cache k v0 t0) k v t = cachePut cache k v t"
  by (simp add: cacheGet_def cachePut_def CACHE_TTL_def)

theorem cache_round_trip_witness:
  "cacheGet (cachePut Map.empty (js ''http://a'')
       \<lparr>totalBytes = 0, usedBytes = 0, usagePercent = Finite 0, files = []\<rparr> 1000)
     (js ''http://a'') 3600999
     = Some \<lparr>totalBytes = 0, usedBytes = 0, usagePercent = Finite 0, files = []\<rparr>
   \<and> cacheGet (cachePut Map.empty (js ''http://a'')
       \<lparr>totalBytes = 0, usedBytes = 0, usagePercent = Finite 0, files = []\<rparr> 1000)
     (js ''http://a'') 3601000
     = None"
proof -
  let ?r = "\<lparr>totalBytes = 0, usedBytes = 0, usagePercent = Finite 0, files = []\<rparr>"
  note t = cache_round_trip [where cache = Map.empty and k = "js ''http://a''" and v = ?r and t = 1000]
  from t [where now = 3600999 and ?v0.0 = ?r and ?t0.0 = 0] have a: "cacheGet (cachePut Map.empty (js ''http://a'') ?r 1000)
     (js ''http://a'') 3600999 = Some ?r"
    by simp
  from t [where now = 3601000 and ?v0.0 = ?r and ?t0.0 = 0] have b: "cacheGet (cachePut Map.empty (js ''http://a'') ?r 1000)
     (js ''http://a'') 3601000 = None"
    by simp
  from a b show ?thesis by (rule conjI)
qed

end
